theory Spec2Isabelle
  imports Complex_Main "HOL-Library.Product_Lexorder" "HOL-Library.Multiset"
begin

section \<open>Data model\<close>

text \<open>
  The two source files \<^verbatim>\<open>app3.py\<close> and \<^verbatim>\<open>pipline_code.py\<close> each define a class
  \<^verbatim>\<open>AQIAutoDetector\<close>. Python numbers (ints and binary64 floats) are modelled as exact
  reals. The rounding of float arithmetic is modelled in the products \<^verbatim>\<open>0.35 * w\<close> and
  \<^verbatim>\<open>0.65 * w\<close> of the centre-band test only. Every raise of the source is a value of \<open>error\<close>.
\<close>

datatype error = ValueError | ZeroDivisionError

text \<open>A breakpoint band is the tuple \<^verbatim>\<open>(clo, chi, ilo, ihi)\<close>.\<close>

type_synonym band = "real \<times> real \<times> real \<times> real"

text \<open>
  \<^verbatim>\<open>self.bps\<close>, the same literal in both files (app3.py lines 14-18,
  pipline_code.py lines 13-17). The dict is an association list with distinct keys.
\<close>

definition bps :: "(string \<times> band list) list" where
  "bps =
    [(''PM25'', [(0, 30, 0, 50), (31, 60, 51, 100), (61, 90, 101, 200),
                 (91, 120, 201, 300), (121, 250, 301, 400), (250, 500, 401, 500)]),
     (''PM10'', [(0, 50, 0, 50), (51, 100, 51, 100), (101, 250, 101, 200),
                 (251, 350, 201, 300), (351, 430, 301, 400), (430, 500, 401, 500)]),
     (''CO'',   [(0, 1, 0, 50), (11 / 10, 2, 51, 100), (21 / 10, 10, 101, 200),
                 (101 / 10, 17, 201, 300), (171 / 10, 34, 301, 400),
                 (341 / 10, 100, 401, 500)])]"

section \<open>AQI calculator\<close>

text \<open>
  The \<^verbatim>\<open>for\<close> loop of \<^verbatim>\<open>get_sub_index\<close>: the first band with
  \<^verbatim>\<open>clo <= conc <= chi\<close> returns the interpolation, no band returns 500. The
  division raises \<^verbatim>\<open>ZeroDivisionError\<close> in Python when \<^verbatim>\<open>chi == clo\<close>.
\<close>

fun scan_bands :: "real \<Rightarrow> band list \<Rightarrow> error + real" where
  "scan_bands conc [] = Inr 500"
| "scan_bands conc ((clo, chi, ilo, ihi) # rest) =
     (if clo \<le> conc \<and> conc \<le> chi then
        (if chi - clo = 0 then Inl ZeroDivisionError
         else Inr (((ihi - ilo) / (chi - clo)) * (conc - clo) + ilo))
      else scan_bands conc rest)"

definition get_sub_index :: "real \<Rightarrow> string \<Rightarrow> error + real" where
  "get_sub_index conc pollutant =
     (case map_of bps pollutant of
        None \<Rightarrow> Inr 0
      | Some bands \<Rightarrow> if conc \<le> 0 then Inr 0 else scan_bands conc bands)"

section \<open>Python builtins used by the field classifier\<close>

text \<open>
  The OCR call is \<^verbatim>\<open>readtext(img, allowlist='0123456789.', detail=1)\<close>, so a detected
  text is a string over the ASCII digits and the point. On ASCII characters
  \<^verbatim>\<open>str.isdigit\<close> holds exactly for \<^verbatim>\<open>0\<close> to \<^verbatim>\<open>9\<close>, and only for a non-empty
  string.
\<close>

definition is_digit :: "char \<Rightarrow> bool" where
  "is_digit c = (c \<in> set ''0123456789'')"

definition py_isdigit :: "string \<Rightarrow> bool" where
  "py_isdigit s = (s \<noteq> [] \<and> list_all is_digit s)"

text \<open>\<^verbatim>\<open>text.replace('.', '', 1)\<close>: the first point, if any, is removed.\<close>

fun replace_first_dot :: "string \<Rightarrow> string" where
  "replace_first_dot [] = []"
| "replace_first_dot (c # cs) = (if c = CHR ''.'' then cs else c # replace_first_dot cs)"

text \<open>
  \<^verbatim>\<open>float(text)\<close> on unsigned decimal literals, after the grammar of the Python language
  reference: \<^verbatim>\<open>digits\<close>, \<^verbatim>\<open>digits.\<close>, \<^verbatim>\<open>digits.digits\<close> and \<^verbatim>\<open>.digits\<close>, with the
  exact decimal value. \<open>None\<close> is Python's \<^verbatim>\<open>ValueError\<close> for the strings over digits
  and points that are no such literal. Signs, exponents, blanks, underscores and the
  words \<^verbatim>\<open>inf\<close> and \<^verbatim>\<open>nan\<close>, which Python also reads, are outside this model; no such
  string passes the numeric filter that guards the call.
\<close>

definition digit_value :: "char \<Rightarrow> nat" where
  "digit_value c = of_char c - 48"

definition digits_value :: "string \<Rightarrow> nat" where
  "digits_value ds = foldl (\<lambda>n c. 10 * n + digit_value c) 0 ds"

definition py_float :: "string \<Rightarrow> real option" where
  "py_float s =
     (let ip = takeWhile is_digit s; rest = dropWhile is_digit s in
      case rest of
        [] \<Rightarrow> if ip = [] then None else Some (real (digits_value ip))
      | c # fp \<Rightarrow>
          if c = CHR ''.'' \<and> list_all is_digit fp \<and> (ip \<noteq> [] \<or> fp \<noteq> [])
          then Some (real (digits_value ip) + real (digits_value fp) / 10 ^ length fp)
          else None)"

text \<open>
  \<^verbatim>\<open>round(x)\<close> of Python 3 on a float: to the nearest integer, a tie to the even one.
\<close>

definition py_round :: "real \<Rightarrow> int" where
  "py_round x =
     (let f = \<lfloor>x\<rfloor>; d = x - of_int f in
      if d < 1 / 2 then f
      else if 1 / 2 < d then f + 1
      else if even f then f else f + 1)"

text \<open>\<^verbatim>\<open>xs[-4:]\<close>: the last four elements, the whole list when it is shorter.\<close>

definition last4 :: "'a list \<Rightarrow> 'a list" where
  "last4 xs = drop (length xs - 4) xs"

section \<open>The binary64 products of the band test\<close>

text \<open>\<^verbatim>\<open>int.bit_length\<close>: the number of binary digits of a natural number.\<close>

fun bit_length :: "nat \<Rightarrow> nat" where
  "bit_length n = (if n = 0 then 0 else Suc (bit_length (n div 2)))"

declare bit_length.simps [simp del]

text \<open>
  Rounding a natural number to 53 significant binary digits, to the nearest such number
  and on a tie to the one with an even significand: what IEEE 754 binary64 does to a
  significand that is too long.
\<close>

definition round53 :: "nat \<Rightarrow> nat" where
  "round53 n =
     (let k = bit_length n - 53 in
      if k = 0 then n
      else
        (let q = n div 2 ^ k; r = n mod 2 ^ k; half = 2 ^ (k - 1) in
         (if r < half then q else if half < r then q + 1 else if even q then q else q + 1) * 2 ^ k))"

text \<open>
  The Python product \<^verbatim>\<open>c * w\<close> of the float \<^verbatim>\<open>c\<close> with the exact value \<open>m / 2 ^ s\<close> and
  the int \<^verbatim>\<open>w\<close>: \<^verbatim>\<open>w\<close> is converted to the nearest float, and the exact product of the
  two floats is rounded to the nearest float. The exponent range of binary64 is not
  modelled: no image width reaches it.
\<close>

definition float_times_int :: "nat \<Rightarrow> nat \<Rightarrow> int \<Rightarrow> real" where
  "float_times_int m s w =
     (let n = round53 (m * round53 (nat \<bar>w\<bar>)) in
      (if w < 0 then - real n else real n) / 2 ^ s)"

text \<open>
  \<^verbatim>\<open>0.35 * w\<close> and \<^verbatim>\<open>0.65 * w\<close>. The literal \<^verbatim>\<open>0.35\<close> is the float
  \<open>3152519739159347 / 2 ^ 53\<close>, just below 7/20, and \<^verbatim>\<open>0.65\<close> is the float
  \<open>5854679515581645 / 2 ^ 53\<close>, just above 13/20.
\<close>

definition band_lo :: "int \<Rightarrow> real" where
  "band_lo w = float_times_int 3152519739159347 53 w"

definition band_hi :: "int \<Rightarrow> real" where
  "band_hi w = float_times_int 5854679515581645 53 w"

section \<open>Field classifier\<close>

text \<open>
  A detection is the triple \<^verbatim>\<open>(bbox, text, prob)\<close>; \<^verbatim>\<open>bbox\<close> is a list of points
  \<^verbatim>\<open>[x, y]\<close>. The centre of a box is the exact sum of the coordinates divided by 4, which
  is what binary64 computes for whole-number pixel coordinates.
\<close>

type_synonym point = "real \<times> real"
type_synonym detection = "point list \<times> string \<times> real"

definition center_x :: "point list \<Rightarrow> real" where
  "center_x bbox = sum_list (map fst bbox) / 4"

definition center_y :: "point list \<Rightarrow> real" where
  "center_y bbox = sum_list (map snd bbox) / 4"

text \<open>
  The loop over \<^verbatim>\<open>raw_results\<close> that fills \<^verbatim>\<open>detected_numbers\<close> (app3.py lines 31-36,
  pipline_code.py lines 43-50), the same in both files. \<^verbatim>\<open>w\<close> is the image width
  \<^verbatim>\<open>img.shape[1]\<close>; the height is read and never used. The two ends of the band are the
  float products \<^verbatim>\<open>0.35 * w\<close> and \<^verbatim>\<open>0.65 * w\<close>.
\<close>

fun detect_numbers :: "detection list \<Rightarrow> int \<Rightarrow> error + (real \<times> real) list" where
  "detect_numbers [] w = Inr []"
| "detect_numbers ((bbox, text, prob) # rest) w =
     (if py_isdigit (replace_first_dot text) then
        (if band_lo w < center_x bbox \<and> center_x bbox < band_hi w then
           (case py_float text of
              None \<Rightarrow> Inl ValueError
            | Some v \<Rightarrow>
                (case detect_numbers rest w of
                   Inl e \<Rightarrow> Inl e
                 | Inr ds \<Rightarrow> Inr ((center_y bbox, v) # ds)))
         else detect_numbers rest w)
      else detect_numbers rest w)"

record row =
  Filename :: string
  Timestamp :: string
  PM25 :: real
  PM10 :: real
  CO :: real
  CO2 :: real
  Final_AQI :: real

text \<open>
  The three calls of \<^verbatim>\<open>get_sub_index\<close> and \<^verbatim>\<open>max(si_pm25, si_pm10, si_co)\<close>, the same
  in both files.
\<close>

definition max_sub_index :: "real \<Rightarrow> real \<Rightarrow> real \<Rightarrow> error + real" where
  "max_sub_index pm25 pm10 co =
     (case get_sub_index pm25 ''PM25'' of
        Inl e \<Rightarrow> Inl e
      | Inr si_pm25 \<Rightarrow>
          (case get_sub_index pm10 ''PM10'' of
             Inl e \<Rightarrow> Inl e
           | Inr si_pm10 \<Rightarrow>
               (case get_sub_index co ''CO'' of
                  Inl e \<Rightarrow> Inl e
                | Inr si_co \<Rightarrow> Inr (max si_pm25 (max si_pm10 si_co)))))"

text \<open>
  \<^verbatim>\<open>process_image_data\<close> of app3.py, after the OCR call: \<^verbatim>\<open>raw_results\<close> is what
  \<^verbatim>\<open>readtext\<close> returned, \<^verbatim>\<open>now\<close> is \<^verbatim>\<open>datetime.now().isoformat()\<close>. The four fields
  are unpacked from the list of values, which raises \<^verbatim>\<open>ValueError\<close> unless it has four
  elements. \<^verbatim>\<open>Final_AQI\<close> is \<^verbatim>\<open>int(round(max(...)))\<close>.
\<close>

definition process_image_data :: "detection list \<Rightarrow> int \<Rightarrow> string \<Rightarrow> string \<Rightarrow> error + row" where
  "process_image_data raw_results w filename now =
     (case detect_numbers raw_results w of
        Inl e \<Rightarrow> Inl e
      | Inr dn \<Rightarrow>
          (let detected_numbers = sort dn;
               fields =
                 (if 4 \<le> length detected_numbers then
                    (case map snd (last4 detected_numbers) of
                       [a, b, c, d] \<Rightarrow> Inr (a, b, c, d)
                     | _ \<Rightarrow> Inl ValueError)
                  else Inr (0, 0, 0, 0))
           in case fields of
                Inl e \<Rightarrow> Inl e
              | Inr (pm25, pm10, co, co2) \<Rightarrow>
                  (case max_sub_index pm25 pm10 co of
                     Inl e \<Rightarrow> Inl e
                   | Inr m \<Rightarrow>
                       Inr \<lparr>Filename = filename, Timestamp = now, PM25 = pm25, PM10 = pm10,
                            CO = co, CO2 = co2, Final_AQI = of_int (py_round m)\<rparr>)))"

text \<open>
  The body of the loop of \<^verbatim>\<open>run\<close> in pipline_code.py for one file that passed the
  extension test and was decoded (lines 38-77), after the OCR call. The four fields are
  read by index from \<^verbatim>\<open>target_vals\<close>, which has four elements under the guard.
  \<^verbatim>\<open>Final_AQI\<close> is \<^verbatim>\<open>max(...)\<close>, stored as it is.
\<close>

definition run_file :: "detection list \<Rightarrow> int \<Rightarrow> string \<Rightarrow> string \<Rightarrow> error + row" where
  "run_file raw_results w filename now =
     (case detect_numbers raw_results w of
        Inl e \<Rightarrow> Inl e
      | Inr dn \<Rightarrow>
          (let detected_numbers = sort dn;
               target_vals = last4 detected_numbers;
               (pm25, pm10, co, co2) =
                 (if 4 \<le> length detected_numbers then
                    (snd (target_vals ! 0), snd (target_vals ! 1),
                     snd (target_vals ! 2), snd (target_vals ! 3))
                  else (0, 0, 0, 0))
           in case max_sub_index pm25 pm10 co of
                Inl e \<Rightarrow> Inl e
              | Inr m \<Rightarrow>
                  Inr \<lparr>Filename = filename, Timestamp = now, PM25 = pm25, PM10 = pm10,
                       CO = co, CO2 = co2, Final_AQI = m\<rparr>))"

section \<open>Notions used to state the properties\<close>

text \<open>The test \<^verbatim>\<open>clo <= conc <= chi\<close> of the scan, as a predicate on a band.\<close>

fun band_matches :: "real \<Rightarrow> band \<Rightarrow> bool" where
  "band_matches conc (clo, chi, ilo, ihi) = (clo \<le> conc \<and> conc \<le> chi)"

text \<open>A band is well formed: a proper interval of concentrations, indices within 0 to 500.\<close>

definition band_ok :: "band \<Rightarrow> bool" where
  "band_ok b = (case b of (clo, chi, ilo, ihi) \<Rightarrow> clo < chi \<and> 0 \<le> ilo \<and> ilo \<le> ihi \<and> ihi \<le> 500)"

text \<open>
  A concentration lies in a gap of a band list: strictly above the \<^verbatim>\<open>chi\<close> of a band and
  strictly below the \<^verbatim>\<open>clo\<close> of the band after it.
\<close>

fun in_gap :: "real \<Rightarrow> band list \<Rightarrow> bool" where
  "in_gap conc ((clo1, chi1, ilo1, ihi1) # (clo2, chi2, ilo2, ihi2) # rest) =
     ((chi1 < conc \<and> conc < clo2) \<or> in_gap conc ((clo2, chi2, ilo2, ihi2) # rest))"
| "in_gap conc bands = False"

text \<open>
  The wording of the specification for the numeric filter: only digits and points, and at
  most one point.
\<close>

definition numeric_text :: "string \<Rightarrow> bool" where
  "numeric_text t = (list_all (\<lambda>c. is_digit c \<or> c = CHR ''.'') t \<and> count_list t CHR ''.'' \<le> 1)"

text \<open>
  The four fields as both components read them from the sorted detections: the values of
  the last four entries, or zeros when there are fewer than four.
\<close>

definition fields_of :: "(real \<times> real) list \<Rightarrow> real \<times> real \<times> real \<times> real" where
  "fields_of s =
     (if 4 \<le> length s then
        (snd (s ! (length s - 4)), snd (s ! (length s - 3)),
         snd (s ! (length s - 2)), snd (s ! (length s - 1)))
      else (0, 0, 0, 0))"

section \<open>Example inputs\<close>

text \<open>
  Five detections in the centre column of an image of width 100, listed bottom to top,
  with the texts 50, 40, 30, 20, 10 at the heights 50, 40, 30, 20, 10.
\<close>

definition five_detections :: "detection list" where
  "five_detections =
     [([(49, 49), (51, 49), (51, 51), (49, 51)], ''50'', 9 / 10),
      ([(49, 39), (51, 39), (51, 41), (49, 41)], ''40'', 9 / 10),
      ([(49, 29), (51, 29), (51, 31), (49, 31)], ''30'', 9 / 10),
      ([(49, 19), (51, 19), (51, 21), (49, 21)], ''20'', 9 / 10),
      ([(49, 9), (51, 9), (51, 11), (49, 11)], ''10'', 9 / 10)]"

text \<open>
  Four detections in the centre column of an image of width 100, top to bottom, with the
  texts 45, 0, 0, 400, and the same with the texts 100, 0, 0, 0.
\<close>

definition detections_pm25_45 :: "detection list" where
  "detections_pm25_45 =
     [([(49, 9), (51, 9), (51, 11), (49, 11)], ''45'', 9 / 10),
      ([(49, 19), (51, 19), (51, 21), (49, 21)], ''0'', 9 / 10),
      ([(49, 29), (51, 29), (51, 31), (49, 31)], ''0'', 9 / 10),
      ([(49, 39), (51, 39), (51, 41), (49, 41)], ''400'', 9 / 10)]"

definition detections_pm25_100 :: "detection list" where
  "detections_pm25_100 =
     [([(49, 9), (51, 9), (51, 11), (49, 11)], ''100'', 9 / 10),
      ([(49, 19), (51, 19), (51, 21), (49, 21)], ''0'', 9 / 10),
      ([(49, 29), (51, 29), (51, 31), (49, 31)], ''0'', 9 / 10),
      ([(49, 39), (51, 39), (51, 41), (49, 41)], ''0'', 9 / 10)]"

section \<open>The breakpoint scan\<close>

lemma map_of_bps_None: "map_of bps p = None \<longleftrightarrow> p \<notin> {''PM25'', ''PM10'', ''CO''}"
  by (simp add: bps_def)

lemma map_of_bps_ok: "map_of bps p = Some bands \<Longrightarrow> list_all band_ok bands"
  by (auto simp: bps_def band_ok_def split: if_splits)

lemma scan_bands_find:
  "list_all band_ok bands \<Longrightarrow>
   scan_bands conc bands =
     (case find (band_matches conc) bands of
        None \<Rightarrow> Inr 500
      | Some (clo, chi, ilo, ihi) \<Rightarrow> Inr (ilo + (ihi - ilo) / (chi - clo) * (conc - clo)))"
proof (induction bands)
  case Nil
  then show ?case by simp
next
  case (Cons b bands)
  obtain clo chi ilo ihi where b: "b = (clo, chi, ilo, ihi)" by (cases b) auto
  from Cons.prems b have ok: "clo < chi" by (simp add: band_ok_def)
  show ?case
  proof (cases "clo \<le> conc \<and> conc \<le> chi")
    case True
    with ok b show ?thesis by simp
  next
    case False
    from Cons.prems have "list_all band_ok bands" by simp
    from Cons.IH [OF this] False b show ?thesis by auto
  qed
qed

lemma interpolate_bounds:
  fixes conc clo chi ilo ihi :: real
  assumes "clo \<le> conc" "conc \<le> chi" "clo < chi" "ilo \<le> ihi"
  shows "ilo \<le> (ihi - ilo) / (chi - clo) * (conc - clo) + ilo"
    and "(ihi - ilo) / (chi - clo) * (conc - clo) + ilo \<le> ihi"
proof -
  define t where "t = (conc - clo) / (chi - clo)"
  have t: "0 \<le> t" "t \<le> 1" using assms by (simp_all add: t_def)
  have e: "(ihi - ilo) / (chi - clo) * (conc - clo) = (ihi - ilo) * t"
    by (simp add: t_def)
  have "0 \<le> (ihi - ilo) * t" using t assms by simp
  moreover have "(ihi - ilo) * t \<le> (ihi - ilo)" using t assms by (simp add: mult_left_le)
  ultimately show "ilo \<le> (ihi - ilo) / (chi - clo) * (conc - clo) + ilo"
    and "(ihi - ilo) / (chi - clo) * (conc - clo) + ilo \<le> ihi"
    unfolding e by simp_all
qed

lemma scan_bands_bounds:
  "list_all band_ok bands \<Longrightarrow> \<exists>v. scan_bands conc bands = Inr v \<and> 0 \<le> v \<and> v \<le> 500"
proof (induction bands)
  case Nil
  then show ?case by simp
next
  case (Cons b bands)
  obtain clo chi ilo ihi where b: "b = (clo, chi, ilo, ihi)" by (cases b) auto
  from Cons.prems b have ok: "clo < chi" "0 \<le> ilo" "ilo \<le> ihi" "ihi \<le> 500"
    by (simp_all add: band_ok_def)
  show ?case
  proof (cases "clo \<le> conc \<and> conc \<le> chi")
    case True
    then have "ilo \<le> (ihi - ilo) / (chi - clo) * (conc - clo) + ilo"
      and "(ihi - ilo) / (chi - clo) * (conc - clo) + ilo \<le> ihi"
      using interpolate_bounds ok by blast+
    with True ok b show ?thesis by simp
  next
    case False
    with Cons b show ?thesis by auto
  qed
qed

lemma get_sub_index_bounds: "\<exists>v. get_sub_index conc p = Inr v \<and> 0 \<le> v \<and> v \<le> 500"
  by (auto simp: get_sub_index_def split: option.splits dest!: map_of_bps_ok intro: scan_bands_bounds)

lemma py_round_bounds: "0 \<le> m \<Longrightarrow> m \<le> 500 \<Longrightarrow> 0 \<le> py_round m \<and> py_round m \<le> 500"
proof -
  assume m: "0 \<le> m" "m \<le> 500"
  define f where "f = \<lfloor>m\<rfloor>"
  have f: "0 \<le> f" "f \<le> 500" using m by (simp_all add: f_def floor_le_iff le_floor_iff)
  have g: "f = 500 \<Longrightarrow> m - of_int f < 1 / 2" using m unfolding f_def by linarith
  have "py_round m = (if m - of_int f < 1 / 2 then f
      else if 1 / 2 < m - of_int f then f + 1
      else if even f then f else f + 1)"
    by (simp add: py_round_def Let_def f_def)
  moreover have "f \<noteq> 500 \<Longrightarrow> f + 1 \<le> 500" using f by linarith
  ultimately show ?thesis using f g by (cases "f = 500") auto
qed

section \<open>The numeric filter and the parser\<close>

lemma not_is_digit_dot: "\<not> is_digit CHR ''.''"
  by (simp add: is_digit_def)

lemma replace_first_dot_shape:
  "list_all is_digit (replace_first_dot t) \<Longrightarrow>
   list_all is_digit t \<or>
   (\<exists>a b. t = a @ CHR ''.'' # b \<and> list_all is_digit a \<and> list_all is_digit b)"
proof (induction t)
  case Nil
  then show ?case by simp
next
  case (Cons c cs)
  show ?case
  proof (cases "c = CHR ''.''")
    case True
    with Cons.prems have "c # cs = [] @ CHR ''.'' # cs \<and> list_all is_digit [] \<and> list_all is_digit cs"
      by simp
    then show ?thesis by blast
  next
    case False
    with Cons.prems have c: "is_digit c" and "list_all is_digit (replace_first_dot cs)" by simp_all
    from Cons.IH [OF this(2)] show ?thesis
    proof
      assume "list_all is_digit cs"
      with c show ?thesis by simp
    next
      assume "\<exists>a b. cs = a @ CHR ''.'' # b \<and> list_all is_digit a \<and> list_all is_digit b"
      then obtain a b where "cs = a @ CHR ''.'' # b" "list_all is_digit a" "list_all is_digit b"
        by blast
      with c have "c # cs = (c # a) @ CHR ''.'' # b \<and> list_all is_digit (c # a) \<and> list_all is_digit b"
        by simp
      then show ?thesis by blast
    qed
  qed
qed

lemma replace_first_dot_append:
  "list_all is_digit a \<Longrightarrow> replace_first_dot (a @ CHR ''.'' # b) = a @ b"
  by (induction a) (auto simp: not_is_digit_dot)

lemma replace_first_dot_digits: "list_all is_digit t \<Longrightarrow> replace_first_dot t = t"
  by (induction t) (auto simp: not_is_digit_dot)

lemma takeWhile_digits: "list_all is_digit a \<Longrightarrow> takeWhile is_digit (a @ CHR ''.'' # b) = a"
  by (induction a) (auto simp: not_is_digit_dot)

lemma dropWhile_digits: "list_all is_digit a \<Longrightarrow> dropWhile is_digit (a @ CHR ''.'' # b) = CHR ''.'' # b"
  by (induction a) (auto simp: not_is_digit_dot)

lemma takeWhile_all: "list_all is_digit t \<Longrightarrow> takeWhile is_digit t = t"
  by (induction t) auto

lemma dropWhile_all: "list_all is_digit t \<Longrightarrow> dropWhile is_digit t = []"
  by (induction t) auto

lemma accepted_parses:
  assumes "py_isdigit (replace_first_dot t)"
  shows "\<exists>v. py_float t = Some v \<and> 0 \<le> v"
proof -
  from assms have ne: "replace_first_dot t \<noteq> []" and dg: "list_all is_digit (replace_first_dot t)"
    by (simp_all add: py_isdigit_def)
  from replace_first_dot_shape [OF dg] show ?thesis
  proof
    assume all: "list_all is_digit t"
    with ne have "t \<noteq> []" by (simp add: replace_first_dot_digits)
    with all show ?thesis by (simp add: py_float_def takeWhile_all dropWhile_all)
  next
    assume "\<exists>a b. t = a @ CHR ''.'' # b \<and> list_all is_digit a \<and> list_all is_digit b"
    then obtain a b where t: "t = a @ CHR ''.'' # b" and a: "list_all is_digit a" and b: "list_all is_digit b"
      by blast
    from ne t a have "a \<noteq> [] \<or> b \<noteq> []" by (simp add: replace_first_dot_append)
    with t a b show ?thesis by (simp add: py_float_def takeWhile_digits dropWhile_digits)
  qed
qed

lemma accepted_iff:
  "py_isdigit (replace_first_dot t) \<longleftrightarrow> numeric_text t \<and> list_ex is_digit t"
proof
  assume acc: "py_isdigit (replace_first_dot t)"
  then have ne: "replace_first_dot t \<noteq> []" and dg: "list_all is_digit (replace_first_dot t)"
    by (simp_all add: py_isdigit_def)
  from replace_first_dot_shape [OF dg] show "numeric_text t \<and> list_ex is_digit t"
  proof
    assume all: "list_all is_digit t"
    with ne have "t \<noteq> []" by (simp add: replace_first_dot_digits)
    moreover from all have "CHR ''.'' \<notin> set t" by (auto simp: list_all_iff not_is_digit_dot)
    ultimately show ?thesis using all
      by (cases t) (auto simp: numeric_text_def list_all_iff list_ex_iff count_list_0_iff)
  next
    assume "\<exists>a b. t = a @ CHR ''.'' # b \<and> list_all is_digit a \<and> list_all is_digit b"
    then obtain a b where t: "t = a @ CHR ''.'' # b" and a: "list_all is_digit a" and b: "list_all is_digit b"
      by blast
    from ne t a have ab: "a \<noteq> [] \<or> b \<noteq> []" by (simp add: replace_first_dot_append)
    from a have "CHR ''.'' \<notin> set a" by (auto simp: list_all_iff not_is_digit_dot)
    moreover from b have "CHR ''.'' \<notin> set b" by (auto simp: list_all_iff not_is_digit_dot)
    ultimately have "count_list t CHR ''.'' = 1" by (simp add: t count_list_0_iff)
    moreover from ab a b have "list_ex is_digit t"
      by (cases a; cases b) (auto simp: t)
    moreover from a b have "list_all (\<lambda>c. is_digit c \<or> c = CHR ''.'') t"
      by (auto simp: t list_all_iff)
    ultimately show ?thesis by (simp add: numeric_text_def)
  qed
next
  assume r: "numeric_text t \<and> list_ex is_digit t"
  have all: "list_all (\<lambda>c. is_digit c \<or> c = CHR ''.'') t \<Longrightarrow> count_list t CHR ''.'' \<le> 1
      \<Longrightarrow> list_all is_digit (replace_first_dot t)"
  proof (induction t)
    case Nil
    then show ?case by simp
  next
    case (Cons c cs)
    show ?case
    proof (cases "c = CHR ''.''")
      case True
      with Cons.prems have "count_list cs CHR ''.'' = 0" by simp
      then have "CHR ''.'' \<notin> set cs" by (simp add: count_list_0_iff)
      with Cons.prems True show ?thesis by (auto simp: list_all_iff)
    next
      case False
      with Cons show ?thesis by simp
    qed
  qed
  have keep: "list_ex is_digit t \<Longrightarrow> replace_first_dot t \<noteq> []"
    by (induction t) (auto simp: not_is_digit_dot)
  from r all keep show "py_isdigit (replace_first_dot t)"
    by (simp add: py_isdigit_def numeric_text_def)
qed

section \<open>The rounding of the band ends\<close>

lemma bit_length_eq:
  "2 ^ k \<le> n \<Longrightarrow> n < 2 ^ Suc k \<Longrightarrow> bit_length n = Suc k"
proof (induction k arbitrary: n)
  case 0
  then have "n = 1" by simp
  then show ?case by (simp add: bit_length.simps)
next
  case (Suc k)
  from Suc.prems have "2 ^ k \<le> n div 2" "n div 2 < 2 ^ Suc k" by simp_all
  from Suc.IH [OF this] have "bit_length (n div 2) = Suc k" .
  moreover from Suc.prems have "n \<noteq> 0" by auto
  ultimately show ?case by (subst bit_length.simps) simp
qed

lemma bit_length_lower: "bit_length m = Suc j \<Longrightarrow> 2 ^ j \<le> m"
proof (induction j arbitrary: m)
  case 0
  then show ?case by (cases "m = 0") (simp_all add: bit_length.simps)
next
  case (Suc j)
  have m: "m \<noteq> 0" using Suc.prems by (cases "m = 0") (simp_all add: bit_length.simps)
  with Suc.prems have "bit_length (m div 2) = Suc j" by (subst (asm) bit_length.simps) simp
  from Suc.IH [OF this] show ?case by simp
qed

lemma round53_small: "n < 2 ^ 53 \<Longrightarrow> round53 n = n"
proof -
  assume n: "n < 2 ^ 53"
  have "bit_length n \<le> 53"
  proof (rule ccontr)
    assume "\<not> bit_length n \<le> 53"
    then obtain j where j: "bit_length n = Suc j" "53 \<le> j" by (cases "bit_length n") auto
    from bit_length_lower [OF j(1)] have "2 ^ j \<le> n" .
    moreover have "(2::nat) ^ 53 \<le> 2 ^ j" using j(2) by (rule power_increasing) simp
    ultimately show False using n by linarith
  qed
  then have k: "bit_length n - 53 = 0" by simp
  show ?thesis unfolding round53_def Let_def k by simp
qed

lemma round53_eval:
  "bit_length n = 53 + k \<Longrightarrow> 0 < k \<Longrightarrow>
   round53 n =
     (if n mod 2 ^ k < 2 ^ (k - 1) then n div 2 ^ k
      else if 2 ^ (k - 1) < n mod 2 ^ k then n div 2 ^ k + 1
      else if even (n div 2 ^ k) then n div 2 ^ k else n div 2 ^ k + 1) * 2 ^ k"
  by (simp add: round53_def Let_def)

lemma band_lo_100: "band_lo 100 = 35"
proof -
  have l: "bit_length 315251973915934700 = 53 + 6"
    using bit_length_eq [of 58 315251973915934700] by simp
  have r: "round53 (nat \<bar>100\<bar>) = 100" by (simp add: round53_small)
  have "round53 315251973915934700 = 315251973915934720"
    by (subst round53_eval [OF l]) simp_all
  then have "round53 (3152519739159347 * round53 (nat \<bar>100\<bar>)) = 315251973915934720"
    unfolding r by simp
  then show ?thesis unfolding band_lo_def float_times_int_def Let_def by simp
qed

lemma band_hi_100: "band_hi 100 = 65"
proof -
  have l: "bit_length 585467951558164500 = 53 + 7"
    using bit_length_eq [of 59 585467951558164500] by simp
  have r: "round53 (nat \<bar>100\<bar>) = 100" by (simp add: round53_small)
  have "round53 585467951558164500 = 585467951558164480"
    by (subst round53_eval [OF l]) simp_all
  then have "round53 (5854679515581645 * round53 (nat \<bar>100\<bar>)) = 585467951558164480"
    unfolding r by simp
  then show ?thesis unfolding band_hi_def float_times_int_def Let_def by simp
qed

lemma band_lo_720: "band_lo 720 = 8866461766385663 / 35184372088832"
proof -
  have l: "bit_length 2269814212194729840 = 53 + 8"
    using bit_length_eq [of 60 2269814212194729840] by simp
  have r: "round53 (nat \<bar>720\<bar>) = 720" by (simp add: round53_small)
  have "round53 2269814212194729840 = 2269814212194729728"
    by (subst round53_eval [OF l]) simp_all
  then have "round53 (3152519739159347 * round53 (nat \<bar>720\<bar>)) = 2269814212194729728"
    unfolding r by simp
  then show ?thesis unfolding band_lo_def float_times_int_def Let_def by simp
qed

lemma band_hi_720: "band_hi 720 = 468"
proof -
  have l: "bit_length 4215369251218784400 = 53 + 9"
    using bit_length_eq [of 61 4215369251218784400] by simp
  have r: "round53 (nat \<bar>720\<bar>) = 720" by (simp add: round53_small)
  have "round53 4215369251218784400 = 4215369251218784256"
    by (subst round53_eval [OF l]) simp_all
  then have "round53 (5854679515581645 * round53 (nat \<bar>720\<bar>)) = 4215369251218784256"
    unfolding r by simp
  then show ?thesis unfolding band_hi_def float_times_int_def Let_def by simp
qed

lemma bit_length_zero: "bit_length n = 0 \<Longrightarrow> n = 0"
  by (cases "n = 0") (simp_all add: bit_length.simps)

lemma round53_error: "\<bar>real (round53 n) - real n\<bar> \<le> real n / 2 ^ 53"
proof (cases "bit_length n - 53 = 0")
  case True
  then show ?thesis unfolding round53_def Let_def by simp
next
  case False
  define k where "k = bit_length n - 53"
  have k: "0 < k" "bit_length n = 53 + k" using False by (simp_all add: k_def)
  then have "bit_length n = Suc (52 + k)" by simp
  from bit_length_lower [OF this] have lo: "2 ^ (52 + k) \<le> n" .
  define q where "q = n div 2 ^ k"
  define r where "r = n mod 2 ^ k"
  have n: "n = q * 2 ^ k + r" unfolding q_def r_def by (rule div_mult_mod_eq [symmetric])
  have r: "r < 2 ^ k" by (simp add: r_def)
  have half: "(2::nat) ^ k = 2 * 2 ^ (k - 1)" using k(1) by (cases k) simp_all
  have e: "round53 n =
     (if r < 2 ^ (k - 1) then q else if 2 ^ (k - 1) < r then q + 1
      else if even q then q else q + 1) * 2 ^ k"
    using round53_eval [OF k(2) k(1)] by (simp add: q_def r_def)
  have "\<bar>real (round53 n) - real n\<bar> \<le> 2 ^ (k - 1)"
  proof -
    define H where "H = (2::real) ^ (k - 1)"
    define P where "P = real (q * 2 ^ k)"
    have b: "real (2 ^ k) = 2 * H" using k(1) by (cases k) (simp_all add: H_def)
    have a: "real n = P + real r" by (subst n) (simp add: P_def)
    have rr: "real r < 2 * H" using r b by (metis of_nat_less_iff)
    have up: "real ((q + 1) * 2 ^ k) = P + 2 * H"
      using b by (simp add: P_def algebra_simps)
    have hn: "real ((2::nat) ^ (k - 1)) = H" by (simp add: H_def)
    consider "r < 2 ^ (k - 1)" | "2 ^ (k - 1) < r" | "r = 2 ^ (k - 1)" by linarith
    then have "\<bar>real (round53 n) - real n\<bar> \<le> H"
    proof cases
      case 1
      then have "real r < H" using hn by (metis of_nat_less_iff)
      moreover from 1 have "real (round53 n) = P" by (simp add: e P_def)
      ultimately show ?thesis using a by simp
    next
      case 2
      then have "H < real r" using hn by (metis of_nat_less_iff)
      moreover from 2 have "real (round53 n) = P + 2 * H" unfolding up [symmetric] by (simp add: e)
      ultimately show ?thesis using a rr by simp
    next
      case 3
      then have "real r = H" using hn by simp
      moreover from 3 have "round53 n = q * 2 ^ k \<or> round53 n = (q + 1) * 2 ^ k"
        by (simp add: e)
      then have "real (round53 n) = P \<or> real (round53 n) = P + 2 * H"
        using up P_def by metis
      ultimately show ?thesis using a by auto
    qed
    then show ?thesis by (simp add: H_def)
  qed
  also have "(2::real) ^ (k - 1) = 2 ^ (52 + k) / 2 ^ 53"
    using k(1) by (cases k) (simp_all add: power_add)
  also have "\<dots> \<le> real n / 2 ^ 53"
  proof -
    have "(2::real) ^ (52 + k) \<le> real n" using lo by (metis of_nat_le_iff of_nat_numeral of_nat_power)
    then show ?thesis by (simp add: divide_right_mono)
  qed
  finally show ?thesis .
qed

lemma band_ends_near:
  assumes "0 \<le> w" "w < 2 ^ 53"
  shows "\<bar>band_lo w - 35 / 100 * of_int w\<bar> \<le> of_int w / 2 ^ 53"
    and "\<bar>band_hi w - 65 / 100 * of_int w\<bar> \<le> of_int w / 2 ^ 53"
proof -
  define u where "u = nat w"
  have u: "of_int w = real u" "nat \<bar>w\<bar> = u" "\<not> w < 0" using assms by (simp_all add: u_def)
  have "u < 2 ^ 53" using assms by (simp add: u_def nat_less_iff)
  then have r: "round53 u = u" by (rule round53_small)
  have lo: "band_lo w = real (round53 (3152519739159347 * u)) / 2 ^ 53"
    by (simp add: band_lo_def float_times_int_def Let_def u r)
  have hi: "band_hi w = real (round53 (5854679515581645 * u)) / 2 ^ 53"
    by (simp add: band_hi_def float_times_int_def Let_def u r)
  have p: "(2::real) ^ 53 = 9007199254740992" by simp
  have x: "0 \<le> real u" by simp
  define a where "a = real (round53 (3152519739159347 * u))"
  define b where "b = real (round53 (5854679515581645 * u))"
  from round53_error [of "3152519739159347 * u"]
  have "\<bar>a - 3152519739159347 * real u\<bar> \<le> 3152519739159347 * real u / 9007199254740992"
    by (simp add: a_def)
  with x have "\<bar>a / 9007199254740992 - 35 / 100 * real u\<bar> \<le> real u / 9007199254740992"
    by linarith
  then show "\<bar>band_lo w - 35 / 100 * of_int w\<bar> \<le> of_int w / 2 ^ 53"
    unfolding lo u(1) p a_def .
  from round53_error [of "5854679515581645 * u"]
  have "\<bar>b - 5854679515581645 * real u\<bar> \<le> 5854679515581645 * real u / 9007199254740992"
    by (simp add: b_def)
  with x have "\<bar>b / 9007199254740992 - 65 / 100 * real u\<bar> \<le> real u / 9007199254740992"
    by linarith
  then show "\<bar>band_hi w - 65 / 100 * of_int w\<bar> \<le> of_int w / 2 ^ 53"
    unfolding hi u(1) p b_def .
qed

section \<open>The detection loop and the row\<close>

lemma detect_numbers_total: "\<exists>ds. detect_numbers raw w = Inr ds"
proof (induction raw)
  case Nil
  then show ?case by simp
next
  case (Cons d raw)
  obtain bbox tx cf where d: "d = (bbox, tx, cf)" by (cases d) auto
  from Cons obtain ds where ds: "detect_numbers raw w = Inr ds" by blast
  show ?case
  proof (cases "py_isdigit (replace_first_dot tx)")
    case True
    from accepted_parses [OF this] obtain v where "py_float tx = Some v" by blast
    with ds d True show ?thesis by simp
  next
    case False
    with ds d show ?thesis by simp
  qed
qed

lemma detect_numbers_member:
  "detect_numbers raw w = Inr ds \<Longrightarrow> (y, v) \<in> set ds \<Longrightarrow>
   \<exists>bbox text prob. (bbox, text, prob) \<in> set raw \<and> py_isdigit (replace_first_dot text) \<and>
      band_lo w < center_x bbox \<and> center_x bbox < band_hi w \<and>
      y = center_y bbox \<and> py_float text = Some v"
proof (induction raw arbitrary: ds)
  case Nil
  then show ?case by simp
next
  case (Cons d raw)
  obtain bbox tx cf where d: "d = (bbox, tx, cf)" by (cases d) auto
  show ?case
  proof (cases "py_isdigit (replace_first_dot tx) \<and>
      band_lo w < center_x bbox \<and> center_x bbox < band_hi w")
    case True
    with Cons.prems(1) d obtain u ds' where u: "py_float tx = Some u"
      and ds': "detect_numbers raw w = Inr ds'" and ds: "ds = (center_y bbox, u) # ds'"
      by (auto split: option.splits sum.splits)
    from Cons.prems(2) ds have "(y, v) = (center_y bbox, u) \<or> (y, v) \<in> set ds'" by simp
    then show ?thesis
    proof
      assume "(y, v) = (center_y bbox, u)"
      with True u d show ?thesis by auto
    next
      assume "(y, v) \<in> set ds'"
      from Cons.IH [OF ds' this] d show ?thesis by auto
    qed
  next
    case False
    with Cons.prems(1) d have "detect_numbers raw w = Inr ds" by (auto split: if_splits)
    from Cons.IH [OF this Cons.prems(2)] show ?thesis by auto
  qed
qed

lemma detect_numbers_skip:
  "\<not> (py_isdigit (replace_first_dot text) \<and>
      band_lo w < center_x bbox \<and> center_x bbox < band_hi w) \<Longrightarrow>
   detect_numbers (pre @ (bbox, text, prob) # post) w = detect_numbers (pre @ post) w"
  by (induction pre) (auto split: option.splits sum.splits)

lemma sorted_fst: "sorted (xs :: (real \<times> real) list) \<Longrightarrow> sorted (map fst xs)"
  by (induction xs) (auto simp: less_eq_prod_def)

lemma list4_nth: "length ys = 4 \<Longrightarrow> ys = [ys ! 0, ys ! 1, ys ! 2, ys ! 3]"
  by (auto simp: numeral_eq_Suc length_Suc_conv)

lemma last4_nth:
  assumes "4 \<le> length xs"
  shows "last4 xs =
    [xs ! (length xs - 4), xs ! (length xs - 3), xs ! (length xs - 2), xs ! (length xs - 1)]"
proof -
  define k where "k = length xs - 4"
  have k: "k + 4 = length xs" using assms by (simp add: k_def)
  have "length (drop k xs) = 4" using k by simp
  from list4_nth [OF this] k
  have "drop k xs = [xs ! k, xs ! (k + 1), xs ! (k + 2), xs ! (k + 3)]" by simp
  moreover have "k + 1 = length xs - 3" "k + 2 = length xs - 2" "k + 3 = length xs - 1"
    using k by simp_all
  ultimately show ?thesis by (simp add: last4_def k_def)
qed

lemma max_sub_index_bounds: "\<exists>m. max_sub_index a b c = Inr m \<and> 0 \<le> m \<and> m \<le> 500"
proof -
  obtain u where u: "get_sub_index a ''PM25'' = Inr u" "0 \<le> u" "u \<le> 500"
    using get_sub_index_bounds by blast
  obtain v where v: "get_sub_index b ''PM10'' = Inr v" "0 \<le> v" "v \<le> 500"
    using get_sub_index_bounds by blast
  obtain x where x: "get_sub_index c ''CO'' = Inr x" "0 \<le> x" "x \<le> 500"
    using get_sub_index_bounds by blast
  from u v x show ?thesis by (simp add: max_sub_index_def)
qed

lemma process_image_data_eq:
  assumes "detect_numbers raw w = Inr ds" "fields_of (sort ds) = (a, b, c, d)"
    "max_sub_index a b c = Inr m"
  shows "process_image_data raw w f n =
    Inr \<lparr>Filename = f, Timestamp = n, PM25 = a, PM10 = b, CO = c, CO2 = d,
         Final_AQI = of_int (py_round m)\<rparr>"
proof (cases "4 \<le> length (sort ds)")
  case True
  from last4_nth [OF True] assms(2) True
  have "map snd (last4 (sort ds)) = [a, b, c, d]" by (simp add: fields_of_def)
  with True assms(1,3) show ?thesis by (simp add: process_image_data_def Let_def)
next
  case False
  with assms(2) have "a = 0" "b = 0" "c = 0" "d = 0" by (simp_all add: fields_of_def)
  with False assms(1,3) show ?thesis by (simp add: process_image_data_def Let_def)
qed

lemma run_file_eq:
  assumes "detect_numbers raw w = Inr ds" "fields_of (sort ds) = (a, b, c, d)"
    "max_sub_index a b c = Inr m"
  shows "run_file raw w f n =
    Inr \<lparr>Filename = f, Timestamp = n, PM25 = a, PM10 = b, CO = c, CO2 = d, Final_AQI = m\<rparr>"
proof (cases "4 \<le> length (sort ds)")
  case True
  from last4_nth [OF True] assms(2) True
  have "map snd (last4 (sort ds)) = [a, b, c, d]" by (simp add: fields_of_def)
  then have "snd (last4 (sort ds) ! 0) = a" "snd (last4 (sort ds) ! 1) = b"
    "snd (last4 (sort ds) ! 2) = c" "snd (last4 (sort ds) ! 3) = d"
    by (auto simp: map_eq_Cons_conv)
  with True assms(1,3) show ?thesis by (simp add: run_file_def Let_def)
next
  case False
  with assms(2) have "a = 0" "b = 0" "c = 0" "d = 0" by (simp_all add: fields_of_def)
  with False assms(1,3) show ?thesis by (simp add: run_file_def Let_def)
qed

section \<open>Properties of the AQI calculator\<close>

lemma map_of_bps_cases:
  "map_of bps p = Some bands \<Longrightarrow>
   (p = ''PM25'' \<and> bands = [(0, 30, 0, 50), (31, 60, 51, 100), (61, 90, 101, 200),
                 (91, 120, 201, 300), (121, 250, 301, 400), (250, 500, 401, 500)]) \<or>
   (p = ''PM10'' \<and> bands = [(0, 50, 0, 50), (51, 100, 51, 100), (101, 250, 101, 200),
                 (251, 350, 201, 300), (351, 430, 301, 400), (430, 500, 401, 500)]) \<or>
   (p = ''CO'' \<and> bands = [(0, 1, 0, 50), (11 / 10, 2, 51, 100), (21 / 10, 10, 101, 200),
                 (101 / 10, 17, 201, 300), (171 / 10, 34, 301, 400),
                 (341 / 10, 100, 401, 500)])"
  by (auto simp: bps_def split: if_splits)

text \<open>
  Claim C1. \<^verbatim>\<open>get_sub_index(conc, pollutant)\<close> returns 0 when \<^verbatim>\<open>conc <= 0\<close> or the
  pollutant is none of PM25, PM10, CO. Otherwise the pollutant has a band list, and the
  result is the interpolation \<^verbatim>\<open>ilo + (ihi - ilo) / (chi - clo) * (conc - clo)\<close> on the
  first band in table order with \<^verbatim>\<open>clo <= conc <= chi\<close>, or 500 when no band matches. It
  never raises. In particular the results at 0, at -5 and at 1000 for PM25 are 0, 0 and 500.
\<close>

theorem get_sub_index_first_band:
  "(conc \<le> 0 \<or> pollutant \<notin> {''PM25'', ''PM10'', ''CO''} \<longrightarrow>
      get_sub_index conc pollutant = Inr 0) \<and>
   (pollutant \<in> {''PM25'', ''PM10'', ''CO''} \<longrightarrow> (\<exists>bands. map_of bps pollutant = Some bands)) \<and>
   (0 < conc \<and> map_of bps pollutant = Some bands \<longrightarrow>
      get_sub_index conc pollutant =
        (case find (band_matches conc) bands of
           Some (clo, chi, ilo, ihi) \<Rightarrow> Inr (ilo + (ihi - ilo) / (chi - clo) * (conc - clo))
         | None \<Rightarrow> Inr 500)) \<and>
   get_sub_index 0 ''PM25'' = Inr 0 \<and>
   get_sub_index (- 5) ''PM25'' = Inr 0 \<and>
   get_sub_index 1000 ''PM25'' = Inr 500"
proof (intro conjI impI)
  assume "conc \<le> 0 \<or> pollutant \<notin> {''PM25'', ''PM10'', ''CO''}"
  then show "get_sub_index conc pollutant = Inr 0"
    using map_of_bps_None [of pollutant]
    by (auto simp: get_sub_index_def split: option.splits)
next
  assume "pollutant \<in> {''PM25'', ''PM10'', ''CO''}"
  then show "\<exists>bands. map_of bps pollutant = Some bands"
    using map_of_bps_None [of pollutant] by auto
next
  assume a: "0 < conc \<and> map_of bps pollutant = Some bands"
  then have "list_all band_ok bands" using map_of_bps_ok by blast
  from scan_bands_find [OF this, of conc] a
  show "get_sub_index conc pollutant =
        (case find (band_matches conc) bands of
           Some (clo, chi, ilo, ihi) \<Rightarrow> Inr (ilo + (ihi - ilo) / (chi - clo) * (conc - clo))
         | None \<Rightarrow> Inr 500)"
    by (simp add: get_sub_index_def split: option.splits)
next
  show "get_sub_index 0 ''PM25'' = Inr 0" by (simp add: get_sub_index_def bps_def)
  show "get_sub_index (- 5) ''PM25'' = Inr 0" by (simp add: get_sub_index_def bps_def)
  show "get_sub_index 1000 ''PM25'' = Inr 500" by (simp add: get_sub_index_def bps_def)
qed

theorem get_sub_index_first_band_witness:
  "(0 :: real) < 45 \<and> ''PM25'' \<in> {''PM25'', ''PM10'', ''CO''} \<and>
   map_of bps ''PM25'' = Some (snd (hd bps)) \<and>
   find (band_matches 45) (snd (hd bps)) = Some (31, 60, 51, 100) \<and>
   get_sub_index 45 ''PM25'' = Inr (2165 / 29) \<and>
   ''O3'' \<notin> {''PM25'', ''PM10'', ''CO''} \<and> get_sub_index 45 ''O3'' = Inr 0 \<and>
   (- 5 :: real) \<le> 0 \<and> get_sub_index (- 5) ''PM10'' = Inr 0"
proof -
  have o: "''O3'' \<notin> {''PM25'', ''PM10'', ''CO''}" by simp
  have "get_sub_index 45 ''PM25'' = Inr (2165 / 29)"
    using get_sub_index_first_band [of 45 "''PM25''" "snd (hd bps)"] by (simp add: bps_def)
  moreover have "get_sub_index 45 ''O3'' = Inr 0"
    using get_sub_index_first_band [of 45 "''O3''"] o by blast
  moreover have "get_sub_index (- 5) ''PM10'' = Inr 0"
    using get_sub_index_first_band [of "- 5" "''PM10''"] by simp
  ultimately show ?thesis by (simp add: bps_def)
qed

text \<open>
  Claim C2, as stated, fails on the table: for PM25 the concentration 30.5 lies in the
  covered range and matches no band, and the concentration 250 matches two bands.
\<close>

theorem bands_gap_and_overlap_counterexample:
  "map_of bps ''PM25'' = Some (snd (hd bps)) \<and>
   (0 :: real) \<le> 61 / 2 \<and> (61 / 2 :: real) \<le> 500 \<and>
   filter (band_matches (61 / 2)) (snd (hd bps)) = [] \<and>
   filter (band_matches 250) (snd (hd bps)) = [(121, 250, 301, 400), (250, 500, 401, 500)]"
  by (simp add: bps_def)

lemma count_pm25:
  "0 \<le> conc \<Longrightarrow> conc \<le> 500 \<Longrightarrow> bands = [(0, 30, 0, 50), (31, 60, 51, 100), (61, 90, 101, 200),
                 (91, 120, 201, 300), (121, 250, 301, 400), (250, 500, 401, 500)] \<Longrightarrow>
   length (filter (band_matches conc) bands) =
     (if in_gap conc bands then 0 else if conc = 250 then 2 else 1)"
  by auto

lemma count_pm10:
  "0 \<le> conc \<Longrightarrow> conc \<le> 500 \<Longrightarrow> bands = [(0, 50, 0, 50), (51, 100, 51, 100), (101, 250, 101, 200),
                 (251, 350, 201, 300), (351, 430, 301, 400), (430, 500, 401, 500)] \<Longrightarrow>
   length (filter (band_matches conc) bands) =
     (if in_gap conc bands then 0 else if conc = 430 then 2 else 1)"
  by auto

lemma count_co:
  "0 \<le> conc \<Longrightarrow> conc \<le> 100 \<Longrightarrow> bands = [(0, 1, 0, 50), (11 / 10, 2, 51, 100), (21 / 10, 10, 101, 200),
                 (101 / 10, 17, 201, 300), (171 / 10, 34, 301, 400),
                 (341 / 10, 100, 401, 500)] \<Longrightarrow>
   length (filter (band_matches conc) bands) = (if in_gap conc bands then 0 else 1)"
  by auto

text \<open>
  Claim C2, amended. For every pollutant of the table and every concentration in the
  covered range (0 to 500 for PM25 and PM10, 0 to 100 for CO) the number of bands with
  \<^verbatim>\<open>clo <= conc <= chi\<close> is one, except that it is zero in the gaps between a band and the
  next one, and two at the endpoint shared by the last two bands of PM25 (250) and of PM10
  (430). No integer concentration (PM25, PM10) and no multiple of one tenth (CO) lies in a
  gap.
\<close>

theorem bands_match_count:
  assumes "map_of bps p = Some bands" "0 \<le> conc" "conc \<le> (if p = ''CO'' then 100 else 500)"
  shows "length (filter (band_matches conc) bands) =
           (if in_gap conc bands then 0
            else if (p = ''PM25'' \<and> conc = 250) \<or> (p = ''PM10'' \<and> conc = 430) then 2
            else 1) \<and>
         (p \<noteq> ''CO'' \<longrightarrow> \<not> in_gap (of_int n) bands) \<and>
         (p = ''CO'' \<longrightarrow> \<not> in_gap (of_int n / 10) bands)"
proof -
  from map_of_bps_cases [OF assms(1)]
  consider (pm25) "p = ''PM25''" "bands = [(0, 30, 0, 50), (31, 60, 51, 100), (61, 90, 101, 200),
                 (91, 120, 201, 300), (121, 250, 301, 400), (250, 500, 401, 500)]"
    | (pm10) "p = ''PM10''" "bands = [(0, 50, 0, 50), (51, 100, 51, 100), (101, 250, 101, 200),
                 (251, 350, 201, 300), (351, 430, 301, 400), (430, 500, 401, 500)]"
    | (co) "p = ''CO''" "bands = [(0, 1, 0, 50), (11 / 10, 2, 51, 100), (21 / 10, 10, 101, 200),
                 (101 / 10, 17, 201, 300), (171 / 10, 34, 301, 400),
                 (341 / 10, 100, 401, 500)]"
    by blast
  then show ?thesis
  proof cases
    case pm25
    from assms(3) pm25(1) have "conc \<le> 500" by simp
    from count_pm25 [OF assms(2) this pm25(2)] have "length (filter (band_matches conc) bands) =
           (if in_gap conc bands then 0 else if conc = 250 then 2 else 1)" .
    moreover have "\<not> in_gap (of_int n) bands" unfolding pm25(2) by (simp; linarith)
    ultimately show ?thesis using pm25(1) by simp
  next
    case pm10
    from assms(3) pm10(1) have "conc \<le> 500" by simp
    from count_pm10 [OF assms(2) this pm10(2)] have "length (filter (band_matches conc) bands) =
           (if in_gap conc bands then 0 else if conc = 430 then 2 else 1)" .
    moreover have "\<not> in_gap (of_int n) bands" unfolding pm10(2) by (simp; linarith)
    ultimately show ?thesis using pm10(1) by simp
  next
    case co
    from assms(3) co(1) have "conc \<le> 100" by simp
    from count_co [OF assms(2) this co(2)] have "length (filter (band_matches conc) bands) =
           (if in_gap conc bands then 0 else 1)" .
    moreover have "\<not> in_gap (of_int n / 10) bands" unfolding co(2) by (simp; linarith)
    ultimately show ?thesis using co(1) by simp
  qed
qed

theorem bands_match_count_witness:
  "map_of bps ''PM25'' = Some (snd (bps ! 0)) \<and> (0 :: real) \<le> 250 \<and>
   (250 :: real) \<le> (if ''PM25'' = ''CO'' then 100 else 500) \<and>
   length (filter (band_matches 250) (snd (bps ! 0))) = 2 \<and>
   ''PM25'' \<noteq> ''CO'' \<and> \<not> in_gap (of_int 30) (snd (bps ! 0)) \<and>
   map_of bps ''CO'' = Some (snd (bps ! 2)) \<and> (0 :: real) \<le> 105 / 100 \<and>
   (105 / 100 :: real) \<le> (if ''CO'' = ''CO'' then 100 else 500) \<and>
   in_gap (105 / 100) (snd (bps ! 2)) \<and>
   length (filter (band_matches (105 / 100)) (snd (bps ! 2))) = 0 \<and>
   \<not> in_gap (of_int 11 / 10) (snd (bps ! 2))"
proof -
  have h: "map_of bps ''PM25'' = Some (snd (bps ! 0))" by (simp add: bps_def)
  have k: "map_of bps ''CO'' = Some (snd (bps ! 2))" by (simp add: bps_def)
  have g: "\<not> in_gap 250 (snd (bps ! 0))" "in_gap (105 / 100) (snd (bps ! 2))"
    by (simp_all add: bps_def)
  have "length (filter (band_matches 250) (snd (bps ! 0))) = 2 \<and>
      \<not> in_gap (of_int 30) (snd (bps ! 0))"
    using bands_match_count [OF h, of 250 30] g by simp
  moreover have "length (filter (band_matches (105 / 100)) (snd (bps ! 2))) = 0 \<and>
      \<not> in_gap (of_int 11 / 10) (snd (bps ! 2))"
    using bands_match_count [OF k, of "105 / 100" 11] g by simp
  ultimately show ?thesis using h k g by simp
qed




text \<open>
  Claim C9. For every pollutant name and every concentration \<^verbatim>\<open>get_sub_index\<close> returns
  a value between 0 and 500, and both components produce a row for every input, with
  \<^verbatim>\<open>Final_AQI\<close> between 0 and 500.
\<close>

theorem sub_index_range:
  "(\<exists>v. get_sub_index conc p = Inr v \<and> 0 \<le> v \<and> v \<le> 500) \<and>
   (\<exists>r. process_image_data raw w f n = Inr r \<and> 0 \<le> Final_AQI r \<and> Final_AQI r \<le> 500) \<and>
   (\<exists>r. run_file raw w f n = Inr r \<and> 0 \<le> Final_AQI r \<and> Final_AQI r \<le> 500)"
proof -
  obtain ds where ds: "detect_numbers raw w = Inr ds" using detect_numbers_total by blast
  obtain a b c d where fl: "fields_of (sort ds) = (a, b, c, d)" by (cases "fields_of (sort ds)") auto
  obtain m where m: "max_sub_index a b c = Inr m" "0 \<le> m" "m \<le> 500"
    using max_sub_index_bounds by blast
  from py_round_bounds [OF m(2,3)]
  have "0 \<le> (of_int (py_round m) :: real)" "(of_int (py_round m) :: real) \<le> 500" by simp_all
  with process_image_data_eq [OF ds fl m(1), of f n]
  have "\<exists>r. process_image_data raw w f n = Inr r \<and> 0 \<le> Final_AQI r \<and> Final_AQI r \<le> 500"
    by simp
  moreover from run_file_eq [OF ds fl m(1), of f n] m
  have "\<exists>r. run_file raw w f n = Inr r \<and> 0 \<le> Final_AQI r \<and> Final_AQI r \<le> 500"
    by simp
  ultimately show ?thesis using get_sub_index_bounds by blast
qed

section \<open>Properties of the field classifier\<close>

text \<open>
  Claim C10. Every text accepted by the numeric filter
  \<^verbatim>\<open>text.replace('.', '', 1).isdigit()\<close> is non-empty, contains a digit and is parsed by
  \<^verbatim>\<open>float\<close>, so the loop over the detections never raises. The text \<^verbatim>\<open>.\<close> is rejected;
  \<^verbatim>\<open>.5\<close> and \<^verbatim>\<open>5.\<close> are accepted and parsed to 0.5 and 5.
\<close>

theorem accepted_text_parses:
  "(py_isdigit (replace_first_dot t) \<longrightarrow>
      t \<noteq> [] \<and> list_ex is_digit t \<and> (\<exists>v. py_float t = Some v)) \<and>
   (\<exists>ds. detect_numbers raw w = Inr ds) \<and>
   \<not> py_isdigit (replace_first_dot ''.'') \<and>
   py_isdigit (replace_first_dot ''.5'') \<and> py_float ''.5'' = Some (1 / 2) \<and>
   py_isdigit (replace_first_dot ''5.'') \<and> py_float ''5.'' = Some 5"
proof (intro conjI impI)
  assume a: "py_isdigit (replace_first_dot t)"
  then have "list_ex is_digit t" by (simp add: accepted_iff)
  then show "list_ex is_digit t" .
  then show "t \<noteq> []" by auto
  from accepted_parses [OF a] show "\<exists>v. py_float t = Some v" by blast
next
  show "\<exists>ds. detect_numbers raw w = Inr ds" by (rule detect_numbers_total)
qed (simp_all add: py_isdigit_def is_digit_def py_float_def digits_value_def digit_value_def)

theorem accepted_text_parses_witness:
  "py_isdigit (replace_first_dot ''12.5'') \<and> ''12.5'' \<noteq> [] \<and> list_ex is_digit ''12.5'' \<and>
   (\<exists>v. py_float ''12.5'' = Some v)"
proof -
  have h: "py_isdigit (replace_first_dot ''12.5'')" by (simp add: py_isdigit_def is_digit_def)
  from accepted_text_parses [of "''12.5''"] h show ?thesis by blast
qed

text \<open>
  Claim C7, as stated, fails on the code: in an image of width 720 a numeric detection
  whose box has the corners x = 250, 254, 254, 250 survives, and its \<^verbatim>\<open>center_x\<close> is 252,
  which is exactly 0.35 times the width and so not strictly inside the band between 0.35
  and 0.65 times the width. The float product \<^verbatim>\<open>0.35 * 720\<close> is just below 252.
\<close>

theorem band_edge_survives_counterexample:
  "detect_numbers [([(250, 9), (254, 9), (254, 11), (250, 11)], ''5'', 9 / 10)] 720 =
     Inr [(10, 5)] \<and>
   center_x [(250, 9), (254, 9), (254, 11), (250, 11)] = 35 / 100 * of_int 720 \<and>
   \<not> (35 / 100 * of_int 720 < center_x [(250, 9), (254, 9), (254, 11), (250, 11)]) \<and>
   band_lo 720 = 8866461766385663 / 35184372088832 \<and>
   band_lo 720 < 35 / 100 * of_int 720"
  by (simp add: py_isdigit_def is_digit_def py_float_def digits_value_def digit_value_def
      center_x_def center_y_def band_lo_720 band_hi_720)

text \<open>
  Claim C7, amended. Every entry of \<^verbatim>\<open>detected_numbers\<close> comes from a detection whose
  text consists of digits and at most one point and whose \<^verbatim>\<open>center_x\<close> lies strictly
  between the float products \<^verbatim>\<open>0.35 * w\<close> and \<^verbatim>\<open>0.65 * w\<close> as the code computes them. A
  detection whose \<^verbatim>\<open>center_x\<close> is not strictly between these two floats is dropped
  whatever its text is. For a box of four corners \<^verbatim>\<open>center_x\<close> is the average of their
  x-coordinates. For a width from 0 to below \<open>2 ^ 53\<close> the two floats are within
  \<open>w / 2 ^ 53\<close> of the exact 0.35 and 0.65 times the width.
\<close>

theorem survivors_numeric_and_in_float_band:
  "(detect_numbers raw w = Inr ds \<and> (y, v) \<in> set ds \<longrightarrow>
      (\<exists>bbox text prob. (bbox, text, prob) \<in> set raw \<and> numeric_text text \<and>
         band_lo w < center_x bbox \<and> center_x bbox < band_hi w \<and>
         y = center_y bbox \<and> py_float text = Some v)) \<and>
   (\<not> (band_lo w < center_x bb \<and> center_x bb < band_hi w) \<longrightarrow>
      detect_numbers (pre @ (bb, tx, pb) # post) w = detect_numbers (pre @ post) w) \<and>
   center_x [(x1, y1), (x2, y2), (x3, y3), (x4, y4)] = (x1 + x2 + x3 + x4) / 4 \<and>
   (0 \<le> w \<and> w < 2 ^ 53 \<longrightarrow>
      \<bar>band_lo w - 35 / 100 * of_int w\<bar> \<le> of_int w / 2 ^ 53 \<and>
      \<bar>band_hi w - 65 / 100 * of_int w\<bar> \<le> of_int w / 2 ^ 53)"
proof (intro conjI impI)
  assume "detect_numbers raw w = Inr ds \<and> (y, v) \<in> set ds"
  then have "\<exists>bbox text prob. (bbox, text, prob) \<in> set raw \<and> py_isdigit (replace_first_dot text) \<and>
      band_lo w < center_x bbox \<and> center_x bbox < band_hi w \<and>
      y = center_y bbox \<and> py_float text = Some v"
    using detect_numbers_member by blast
  then show "\<exists>bbox text prob. (bbox, text, prob) \<in> set raw \<and> numeric_text text \<and>
         band_lo w < center_x bbox \<and> center_x bbox < band_hi w \<and>
         y = center_y bbox \<and> py_float text = Some v"
    using accepted_iff by blast
next
  assume "\<not> (band_lo w < center_x bb \<and> center_x bb < band_hi w)"
  then show "detect_numbers (pre @ (bb, tx, pb) # post) w = detect_numbers (pre @ post) w"
    using detect_numbers_skip by blast
next
  show "center_x [(x1, y1), (x2, y2), (x3, y3), (x4, y4)] = (x1 + x2 + x3 + x4) / 4"
    by (simp add: center_x_def)
next
  assume "0 \<le> w \<and> w < 2 ^ 53"
  then show "\<bar>band_lo w - 35 / 100 * of_int w\<bar> \<le> of_int w / 2 ^ 53"
    using band_ends_near(1) by blast
next
  assume "0 \<le> w \<and> w < 2 ^ 53"
  then show "\<bar>band_hi w - 65 / 100 * of_int w\<bar> \<le> of_int w / 2 ^ 53"
    using band_ends_near(2) by blast
qed

theorem survivors_numeric_and_in_float_band_witness:
  "detect_numbers [([(250, 9), (254, 9), (254, 11), (250, 11)], ''5'', 9 / 10),
                   ([(248, 9), (254, 9), (254, 11), (248, 11)], ''7'', 9 / 10)] 720 = Inr [(10, 5)] \<and>
   (10, 5) \<in> set [(10 :: real, 5 :: real)] \<and>
   numeric_text ''5'' \<and>
   band_lo 720 < center_x [(250, 9), (254, 9), (254, 11), (250, 11)] \<and>
   center_x [(250, 9), (254, 9), (254, 11), (250, 11)] < band_hi 720 \<and>
   \<not> (band_lo 720 < center_x [(248, 9), (254, 9), (254, 11), (248, 11)] \<and>
      center_x [(248, 9), (254, 9), (254, 11), (248, 11)] < band_hi 720) \<and>
   detect_numbers ([([(250, 9), (254, 9), (254, 11), (250, 11)], ''5'', 9 / 10)] @
                   ([(248, 9), (254, 9), (254, 11), (248, 11)], ''7'', 9 / 10) # []) 720 =
     detect_numbers ([([(250, 9), (254, 9), (254, 11), (250, 11)], ''5'', 9 / 10)] @ []) 720 \<and>
   (0 :: int) \<le> 720 \<and> (720 :: int) < 2 ^ 53 \<and>
   \<bar>band_lo 720 - 35 / 100 * of_int 720\<bar> \<le> of_int 720 / 2 ^ 53 \<and>
   \<bar>band_hi 720 - 65 / 100 * of_int 720\<bar> \<le> of_int 720 / 2 ^ 53"
proof -
  have d: "detect_numbers [([(250, 9), (254, 9), (254, 11), (250, 11)], ''5'', 9 / 10),
                   ([(248, 9), (254, 9), (254, 11), (248, 11)], ''7'', 9 / 10)] 720 = Inr [(10, 5)]"
    by (simp add: py_isdigit_def is_digit_def py_float_def digits_value_def digit_value_def
        center_x_def center_y_def band_lo_720 band_hi_720)
  have i: "band_lo 720 < center_x [(250, 9), (254, 9), (254, 11), (250, 11)] \<and>
      center_x [(250, 9), (254, 9), (254, 11), (250, 11)] < band_hi 720"
    by (simp add: center_x_def band_lo_720 band_hi_720)
  have o: "\<not> (band_lo 720 < center_x [(248, 9), (254, 9), (254, 11), (248, 11)] \<and>
      center_x [(248, 9), (254, 9), (254, 11), (248, 11)] < band_hi 720)"
    by (simp add: center_x_def band_lo_720 band_hi_720)
  have n: "numeric_text ''5''" by (simp add: numeric_text_def is_digit_def)
  have w: "(0 :: int) \<le> 720 \<and> (720 :: int) < 2 ^ 53" by simp
  from survivors_numeric_and_in_float_band
    [of "[([(250, 9), (254, 9), (254, 11), (250, 11)], ''5'', 9 / 10),
          ([(248, 9), (254, 9), (254, 11), (248, 11)], ''7'', 9 / 10)]" 720 "[(10, 5)]" 10 5
        "[(248, 9), (254, 9), (254, 11), (248, 11)]"
        "[([(250, 9), (254, 9), (254, 11), (250, 11)], ''5'', 9 / 10)]" "''7''" "9 / 10" "[]"]
    d i o n w
  show ?thesis by simp
qed

lemma fields_of_short: "length s < 4 \<Longrightarrow> fields_of s = (0, 0, 0, 0)"
  by (simp add: fields_of_def)

lemma max_sub_index_zero: "max_sub_index 0 0 0 = Inr 0"
  by (simp add: max_sub_index_def get_sub_index_def bps_def)

lemma py_round_zero: "py_round 0 = 0"
  by (simp add: py_round_def)

text \<open>
  Claim C8. The detection loop never raises, and when fewer than four detections survive,
  both components produce the row with PM25, PM10, CO and CO2 equal to 0 and
  \<^verbatim>\<open>Final_AQI\<close> equal to 0; the sub-index of concentration 0 is 0 for each pollutant.
\<close>

theorem few_detections_zero_row:
  "\<exists>ds. detect_numbers raw w = Inr ds \<and>
     (length ds < 4 \<longrightarrow>
        process_image_data raw w f n =
          Inr \<lparr>Filename = f, Timestamp = n, PM25 = 0, PM10 = 0, CO = 0, CO2 = 0, Final_AQI = 0\<rparr> \<and>
        run_file raw w f n =
          Inr \<lparr>Filename = f, Timestamp = n, PM25 = 0, PM10 = 0, CO = 0, CO2 = 0, Final_AQI = 0\<rparr> \<and>
        get_sub_index 0 ''PM25'' = Inr 0 \<and> get_sub_index 0 ''PM10'' = Inr 0 \<and>
        get_sub_index 0 ''CO'' = Inr 0)"
proof -
  obtain ds where ds: "detect_numbers raw w = Inr ds" using detect_numbers_total by blast
  have "process_image_data raw w f n =
          Inr \<lparr>Filename = f, Timestamp = n, PM25 = 0, PM10 = 0, CO = 0, CO2 = 0, Final_AQI = 0\<rparr> \<and>
        run_file raw w f n =
          Inr \<lparr>Filename = f, Timestamp = n, PM25 = 0, PM10 = 0, CO = 0, CO2 = 0, Final_AQI = 0\<rparr>"
    if "length ds < 4"
  proof -
    from that have fl: "fields_of (sort ds) = (0, 0, 0, 0)" by (simp add: fields_of_short)
    from process_image_data_eq [OF ds fl max_sub_index_zero, of f n]
      run_file_eq [OF ds fl max_sub_index_zero, of f n]
    show ?thesis by (simp add: py_round_zero)
  qed
  moreover have "get_sub_index 0 ''PM25'' = Inr 0 \<and> get_sub_index 0 ''PM10'' = Inr 0 \<and>
        get_sub_index 0 ''CO'' = Inr 0"
    by (simp add: get_sub_index_def bps_def)
  ultimately show ?thesis using ds by blast
qed

theorem few_detections_zero_row_witness:
  "detect_numbers [([(49, 9), (51, 9), (51, 11), (49, 11)], ''45'', 9 / 10),
                   ([(79, 9), (81, 9), (81, 11), (79, 11)], ''7'', 9 / 10)] 100 = Inr [(10, 45)] \<and>
   length [(10 :: real, 45 :: real)] < 4 \<and>
   process_image_data [([(49, 9), (51, 9), (51, 11), (49, 11)], ''45'', 9 / 10),
                   ([(79, 9), (81, 9), (81, 11), (79, 11)], ''7'', 9 / 10)] 100 ''a.jpg'' ''t'' =
     Inr \<lparr>Filename = ''a.jpg'', Timestamp = ''t'', PM25 = 0, PM10 = 0, CO = 0, CO2 = 0,
          Final_AQI = 0\<rparr> \<and>
   run_file [([(49, 9), (51, 9), (51, 11), (49, 11)], ''45'', 9 / 10),
                   ([(79, 9), (81, 9), (81, 11), (79, 11)], ''7'', 9 / 10)] 100 ''a.jpg'' ''t'' =
     Inr \<lparr>Filename = ''a.jpg'', Timestamp = ''t'', PM25 = 0, PM10 = 0, CO = 0, CO2 = 0,
          Final_AQI = 0\<rparr>"
proof -
  have d: "detect_numbers [([(49, 9), (51, 9), (51, 11), (49, 11)], ''45'', 9 / 10),
                   ([(79, 9), (81, 9), (81, 11), (79, 11)], ''7'', 9 / 10)] 100 = Inr [(10, 45)]"
    by (simp add: py_isdigit_def is_digit_def py_float_def digits_value_def digit_value_def
        center_x_def center_y_def band_lo_100 band_hi_100)
  from few_detections_zero_row
    [of "[([(49, 9), (51, 9), (51, 11), (49, 11)], ''45'', 9 / 10),
          ([(79, 9), (81, 9), (81, 11), (79, 11)], ''7'', 9 / 10)]" 100 "''a.jpg''" "''t''"]
  show ?thesis unfolding d by simp
qed

lemma sorted_five:
  fixes y1 :: real
  assumes "y1 < y2" "y2 < y3" "y3 < y4" "y4 < y5"
  shows "sorted [(y1, a :: real), (y2, b), (y3, c), (y4, d), (y5, e)]"
  using assms by (simp add: less_eq_prod_def)

lemma sort_five:
  fixes y1 :: real
  assumes "y1 < y2" "y2 < y3" "y3 < y4" "y4 < y5"
    and "mset ds = {#(y1, a :: real), (y2, b), (y3, c), (y4, d), (y5, e)#}"
  shows "sort ds = [(y1, a), (y2, b), (y3, c), (y4, d), (y5, e)]"
proof (rule properties_for_sort)
  show "mset [(y1, a), (y2, b), (y3, c), (y4, d), (y5, e)] = mset ds"
    using assms(5) by (simp add: add.commute add.left_commute)
  show "sorted [(y1, a), (y2, b), (y3, c), (y4, d), (y5, e)]"
    using sorted_five [OF assms(1-4)] .
qed

text \<open>
  Claim C5. The surviving detections are sorted, so their \<^verbatim>\<open>center_y\<close> ascend, and the
  sorted list is a permutation of the survivors. With fewer than four survivors the four
  fields are 0 in both components; otherwise PM25, PM10, CO and CO2 are the values of the
  fourth-last, third-last, second-last and last entry. For five survivors at strictly
  increasing heights with the values 10, 20, 30, 40, 50, in any order of detection, the
  fields are 20, 30, 40, 50.
\<close>

theorem last_four_assigned:
  assumes "detect_numbers raw w = Inr ds"
  shows "sorted (map fst (sort ds)) \<and> mset (sort ds) = mset ds \<and>
    (\<exists>r1 r2. process_image_data raw w f n = Inr r1 \<and> run_file raw w f n = Inr r2 \<and>
       (length ds < 4 \<longrightarrow>
          PM25 r1 = 0 \<and> PM10 r1 = 0 \<and> CO r1 = 0 \<and> CO2 r1 = 0 \<and>
          PM25 r2 = 0 \<and> PM10 r2 = 0 \<and> CO r2 = 0 \<and> CO2 r2 = 0) \<and>
       (4 \<le> length ds \<longrightarrow>
          PM25 r1 = snd (sort ds ! (length ds - 4)) \<and> PM10 r1 = snd (sort ds ! (length ds - 3)) \<and>
          CO r1 = snd (sort ds ! (length ds - 2)) \<and> CO2 r1 = snd (sort ds ! (length ds - 1)) \<and>
          PM25 r2 = snd (sort ds ! (length ds - 4)) \<and> PM10 r2 = snd (sort ds ! (length ds - 3)) \<and>
          CO r2 = snd (sort ds ! (length ds - 2)) \<and> CO2 r2 = snd (sort ds ! (length ds - 1))) \<and>
       (y1 < y2 \<and> y2 < y3 \<and> y3 < y4 \<and> y4 < y5 \<and>
        mset ds = {#(y1, 10), (y2, 20), (y3, 30), (y4, 40), (y5, 50)#} \<longrightarrow>
          PM25 r1 = 20 \<and> PM10 r1 = 30 \<and> CO r1 = 40 \<and> CO2 r1 = 50 \<and>
          PM25 r2 = 20 \<and> PM10 r2 = 30 \<and> CO r2 = 40 \<and> CO2 r2 = 50))"
proof -
  obtain a b c d where fl: "fields_of (sort ds) = (a, b, c, d)"
    by (cases "fields_of (sort ds)") auto
  obtain m where m: "max_sub_index a b c = Inr m" using max_sub_index_bounds by blast
  define r1 where "r1 = \<lparr>Filename = f, Timestamp = n, PM25 = a, PM10 = b, CO = c, CO2 = d,
         Final_AQI = of_int (py_round m)\<rparr>"
  define r2 where "r2 = \<lparr>Filename = f, Timestamp = n, PM25 = a, PM10 = b, CO = c, CO2 = d,
         Final_AQI = m\<rparr>"
  have p1: "process_image_data raw w f n = Inr r1"
    unfolding r1_def by (rule process_image_data_eq [OF assms fl m])
  have p2: "run_file raw w f n = Inr r2"
    unfolding r2_def by (rule run_file_eq [OF assms fl m])
  have fs: "PM25 r1 = a" "PM10 r1 = b" "CO r1 = c" "CO2 r1 = d"
    "PM25 r2 = a" "PM10 r2 = b" "CO r2 = c" "CO2 r2 = d"
    by (simp_all add: r1_def r2_def)
  have short: "a = 0 \<and> b = 0 \<and> c = 0 \<and> d = 0" if "length ds < 4"
    using that fl by (simp add: fields_of_def)
  have long: "a = snd (sort ds ! (length ds - 4)) \<and> b = snd (sort ds ! (length ds - 3)) \<and>
      c = snd (sort ds ! (length ds - 2)) \<and> d = snd (sort ds ! (length ds - 1))"
    if "4 \<le> length ds"
    using that fl by (simp add: fields_of_def)
  have five: "a = 20 \<and> b = 30 \<and> c = 40 \<and> d = 50"
    if "y1 < y2 \<and> y2 < y3 \<and> y3 < y4 \<and> y4 < y5 \<and>
        mset ds = {#(y1, 10), (y2, 20), (y3, 30), (y4, 40), (y5, 50)#}"
  proof -
    from that have "sort ds = [(y1, 10), (y2, 20), (y3, 30), (y4, 40), (y5, 50)]"
      using sort_five by blast
    with fl show ?thesis by (simp add: fields_of_def)
  qed
  have "sorted (map fst (sort ds))" by (simp add: sorted_fst)
  moreover have "mset (sort ds) = mset ds" by simp
  moreover have "process_image_data raw w f n = Inr r1 \<and> run_file raw w f n = Inr r2 \<and>
       (length ds < 4 \<longrightarrow>
          PM25 r1 = 0 \<and> PM10 r1 = 0 \<and> CO r1 = 0 \<and> CO2 r1 = 0 \<and>
          PM25 r2 = 0 \<and> PM10 r2 = 0 \<and> CO r2 = 0 \<and> CO2 r2 = 0) \<and>
       (4 \<le> length ds \<longrightarrow>
          PM25 r1 = snd (sort ds ! (length ds - 4)) \<and> PM10 r1 = snd (sort ds ! (length ds - 3)) \<and>
          CO r1 = snd (sort ds ! (length ds - 2)) \<and> CO2 r1 = snd (sort ds ! (length ds - 1)) \<and>
          PM25 r2 = snd (sort ds ! (length ds - 4)) \<and> PM10 r2 = snd (sort ds ! (length ds - 3)) \<and>
          CO r2 = snd (sort ds ! (length ds - 2)) \<and> CO2 r2 = snd (sort ds ! (length ds - 1))) \<and>
       (y1 < y2 \<and> y2 < y3 \<and> y3 < y4 \<and> y4 < y5 \<and>
        mset ds = {#(y1, 10), (y2, 20), (y3, 30), (y4, 40), (y5, 50)#} \<longrightarrow>
          PM25 r1 = 20 \<and> PM10 r1 = 30 \<and> CO r1 = 40 \<and> CO2 r1 = 50 \<and>
          PM25 r2 = 20 \<and> PM10 r2 = 30 \<and> CO r2 = 40 \<and> CO2 r2 = 50)"
    unfolding fs using p1 p2 short long five by blast
  ultimately show ?thesis by blast
qed

theorem last_four_assigned_witness:
  "detect_numbers five_detections 100 = Inr [(50, 50), (40, 40), (30, 30), (20, 20), (10, 10)] \<and>
   (4 :: nat) \<le> length [(50 :: real, 50 :: real), (40, 40), (30, 30), (20, 20), (10, 10)] \<and>
   (10 :: real) < 20 \<and> (20 :: real) < 30 \<and> (30 :: real) < 40 \<and> (40 :: real) < 50 \<and>
   mset [(50 :: real, 50 :: real), (40, 40), (30, 30), (20, 20), (10, 10)] =
     {#(10, 10), (20, 20), (30, 30), (40, 40), (50, 50)#} \<and>
   (\<exists>r1 r2. process_image_data five_detections 100 ''a.jpg'' ''t'' = Inr r1 \<and>
      run_file five_detections 100 ''a.jpg'' ''t'' = Inr r2 \<and>
      PM25 r1 = 20 \<and> PM10 r1 = 30 \<and> CO r1 = 40 \<and> CO2 r1 = 50 \<and>
      PM25 r2 = 20 \<and> PM10 r2 = 30 \<and> CO r2 = 40 \<and> CO2 r2 = 50) \<and>
   detect_numbers (take 3 five_detections) 100 = Inr [(50, 50), (40, 40), (30, 30)] \<and>
   length [(50 :: real, 50 :: real), (40, 40), (30, 30)] < 4 \<and>
   (\<exists>r1 r2. process_image_data (take 3 five_detections) 100 ''a.jpg'' ''t'' = Inr r1 \<and>
      run_file (take 3 five_detections) 100 ''a.jpg'' ''t'' = Inr r2 \<and>
      PM25 r1 = 0 \<and> PM10 r1 = 0 \<and> CO r1 = 0 \<and> CO2 r1 = 0 \<and>
      PM25 r2 = 0 \<and> PM10 r2 = 0 \<and> CO r2 = 0 \<and> CO2 r2 = 0)"
proof -
  have d: "detect_numbers five_detections 100 =
      Inr [(50, 50), (40, 40), (30, 30), (20, 20), (10, 10)]"
    by (simp add: five_detections_def py_isdigit_def is_digit_def py_float_def digits_value_def
        digit_value_def center_x_def center_y_def band_lo_100 band_hi_100)
  have e: "detect_numbers (take 3 five_detections) 100 = Inr [(50, 50), (40, 40), (30, 30)]"
    by (simp add: five_detections_def py_isdigit_def is_digit_def py_float_def digits_value_def
        digit_value_def center_x_def center_y_def band_lo_100 band_hi_100)
  have m: "mset [(50 :: real, 50 :: real), (40, 40), (30, 30), (20, 20), (10, 10)] =
     {#(10, 10), (20, 20), (30, 30), (40, 40), (50, 50)#}"
    by simp
  from last_four_assigned [OF d, of "''a.jpg''" "''t''" 10 20 30 40 50] m
  have "\<exists>r1 r2. process_image_data five_detections 100 ''a.jpg'' ''t'' = Inr r1 \<and>
      run_file five_detections 100 ''a.jpg'' ''t'' = Inr r2 \<and>
      PM25 r1 = 20 \<and> PM10 r1 = 30 \<and> CO r1 = 40 \<and> CO2 r1 = 50 \<and>
      PM25 r2 = 20 \<and> PM10 r2 = 30 \<and> CO r2 = 40 \<and> CO2 r2 = 50"
    by auto
  moreover from last_four_assigned [OF e, of "''a.jpg''" "''t''" 0 0 0 0 0]
  have "\<exists>r1 r2. process_image_data (take 3 five_detections) 100 ''a.jpg'' ''t'' = Inr r1 \<and>
      run_file (take 3 five_detections) 100 ''a.jpg'' ''t'' = Inr r2 \<and>
      PM25 r1 = 0 \<and> PM10 r1 = 0 \<and> CO r1 = 0 \<and> CO2 r1 = 0 \<and>
      PM25 r2 = 0 \<and> PM10 r2 = 0 \<and> CO r2 = 0 \<and> CO2 r2 = 0"
    by auto
  ultimately show ?thesis using d e m by simp
qed

section \<open>The two components compared\<close>

text \<open>
  Both components always produce a row, with the same file name, time stamp and pollutant
  fields; \<^verbatim>\<open>Final_AQI\<close> is the maximum of the three sub-indices in pipline_code.py and
  that maximum rounded in app3.py. CO2 is no argument of the maximum.
\<close>

lemma rows_agree_up_to_rounding:
  "\<exists>r1 r2 m. process_image_data raw w f n = Inr r1 \<and> run_file raw w f n = Inr r2 \<and>
     max_sub_index (PM25 r2) (PM10 r2) (CO r2) = Inr m \<and>
     Final_AQI r2 = m \<and> Final_AQI r1 = of_int (py_round m) \<and>
     Filename r1 = Filename r2 \<and> Timestamp r1 = Timestamp r2 \<and>
     PM25 r1 = PM25 r2 \<and> PM10 r1 = PM10 r2 \<and> CO r1 = CO r2 \<and> CO2 r1 = CO2 r2"
proof -
  obtain ds where ds: "detect_numbers raw w = Inr ds" using detect_numbers_total by blast
  obtain a b c d where fl: "fields_of (sort ds) = (a, b, c, d)"
    by (cases "fields_of (sort ds)") auto
  obtain m where m: "max_sub_index a b c = Inr m" using max_sub_index_bounds by blast
  from process_image_data_eq [OF ds fl m, of f n] run_file_eq [OF ds fl m, of f n] m
  show ?thesis by simp
qed

lemma detect_pm25_45:
  "detect_numbers detections_pm25_45 100 = Inr [(10, 45), (20, 0), (30, 0), (40, 400)]"
  by (simp add: detections_pm25_45_def py_isdigit_def is_digit_def py_float_def digits_value_def
      digit_value_def center_x_def center_y_def band_lo_100 band_hi_100)

lemma detect_pm25_100:
  "detect_numbers detections_pm25_100 100 = Inr [(10, 100), (20, 0), (30, 0), (40, 0)]"
  by (simp add: detections_pm25_100_def py_isdigit_def is_digit_def py_float_def digits_value_def
      digit_value_def center_x_def center_y_def band_lo_100 band_hi_100)

lemma sort_four:
  fixes y1 :: real
  assumes "y1 < y2" "y2 < y3" "y3 < y4"
  shows "sort [(y1, a :: real), (y2, b), (y3, c), (y4, d)] = [(y1, a), (y2, b), (y3, c), (y4, d)]"
  using assms by (intro sorted_sort_id) (simp add: less_eq_prod_def)

lemma max_sub_index_45: "max_sub_index 45 0 0 = Inr (2165 / 29)"
  by (simp add: max_sub_index_def get_sub_index_def bps_def)

lemma max_sub_index_100: "max_sub_index 100 0 0 = Inr (6720 / 29)"
  by (simp add: max_sub_index_def get_sub_index_def bps_def)

lemma py_round_45: "py_round (2165 / 29) = 75"
  by (simp add: py_round_def Let_def)

lemma py_round_100: "py_round (6720 / 29) = 232"
  by (simp add: py_round_def Let_def)

text \<open>
  Claim C3, evaluated where it fails. For the detections 45, 0, 0, 400 the row of
  pipline_code.py has PM25 = 45 and \<^verbatim>\<open>Final_AQI\<close> = 2165/29 (about 74.66), the maximum
  of the sub-indices as it is, while its rounding is 75, which is what app3.py stores.
\<close>

theorem run_file_final_aqi_unrounded:
  "run_file detections_pm25_45 100 ''a.jpg'' ''t'' =
     Inr \<lparr>Filename = ''a.jpg'', Timestamp = ''t'', PM25 = 45, PM10 = 0, CO = 0, CO2 = 400,
          Final_AQI = 2165 / 29\<rparr> \<and>
   max_sub_index 45 0 0 = Inr (2165 / 29) \<and>
   py_round (2165 / 29) = 75 \<and>
   process_image_data detections_pm25_45 100 ''a.jpg'' ''t'' =
     Inr \<lparr>Filename = ''a.jpg'', Timestamp = ''t'', PM25 = 45, PM10 = 0, CO = 0, CO2 = 400,
          Final_AQI = 75\<rparr>"
proof -
  have s: "sort [(10 :: real, 45 :: real), (20, 0), (30, 0), (40, 400)] =
      [(10, 45), (20, 0), (30, 0), (40, 400)]"
    by (rule sort_four) simp_all
  have fl: "fields_of (sort [(10 :: real, 45 :: real), (20, 0), (30, 0), (40, 400)]) = (45, 0, 0, 400)"
    unfolding s by (simp add: fields_of_def)
  from run_file_eq [OF detect_pm25_45 fl max_sub_index_45, of "''a.jpg''" "''t''"]
    process_image_data_eq [OF detect_pm25_45 fl max_sub_index_45, of "''a.jpg''" "''t''"]
  show ?thesis by (simp add: max_sub_index_45 py_round_45)
qed

text \<open>
  Claim C4, evaluated where it fails. For the detections 100, 0, 0, 0 the two components
  agree on PM25, PM10, CO and CO2 and differ on \<^verbatim>\<open>Final_AQI\<close>: 232 in app3.py and
  6720/29 (about 231.72) in pipline_code.py.
\<close>

theorem components_differ_on_final_aqi:
  "process_image_data detections_pm25_100 100 ''a.jpg'' ''t'' =
     Inr \<lparr>Filename = ''a.jpg'', Timestamp = ''t'', PM25 = 100, PM10 = 0, CO = 0, CO2 = 0,
          Final_AQI = 232\<rparr> \<and>
   run_file detections_pm25_100 100 ''a.jpg'' ''t'' =
     Inr \<lparr>Filename = ''a.jpg'', Timestamp = ''t'', PM25 = 100, PM10 = 0, CO = 0, CO2 = 0,
          Final_AQI = 6720 / 29\<rparr> \<and>
   process_image_data detections_pm25_100 100 ''a.jpg'' ''t'' \<noteq>
     run_file detections_pm25_100 100 ''a.jpg'' ''t''"
proof -
  have s: "sort [(10 :: real, 100 :: real), (20, 0), (30, 0), (40, 0)] =
      [(10, 100), (20, 0), (30, 0), (40, 0)]"
    by (rule sort_four) simp_all
  have fl: "fields_of (sort [(10 :: real, 100 :: real), (20, 0), (30, 0), (40, 0)]) = (100, 0, 0, 0)"
    unfolding s by (simp add: fields_of_def)
  from run_file_eq [OF detect_pm25_100 fl max_sub_index_100, of "''a.jpg''" "''t''"]
    process_image_data_eq [OF detect_pm25_100 fl max_sub_index_100, of "''a.jpg''" "''t''"]
  show ?thesis by (simp add: py_round_100)
qed

end
